theory Spec2Isabelle
  imports Main "HOL-Library.Sublist"
begin

section \<open>Data model of \<^verbatim>\<open>pkg/service/auth_context.go\<close>\<close>

text \<open>
  A Go \<^verbatim>\<open>error\<close> that is not nil is represented by its message; a possibly nil error is
  an \<open>error option\<close>. An \<^verbatim>\<open>interface{}\<close> result object is either nil or some value.
\<close>

type_synonym error = string

datatype object = Nil | Obj string

text \<open>
  A \<^verbatim>\<open>common.AuthConfigEvaluator\<close> is an interface value: nil, or a dynamic type together
  with a pointer. The three configuration types of \<^verbatim>\<open>pkg/config\<close> are the constructors;
  the argument is the address the pointer holds.
\<close>

type_synonym addr = nat

datatype evaluator =
  NilEvaluator | IdentityConfig addr | MetadataConfig addr | AuthorizationConfig addr

text \<open>
  The checked type assertions \<^verbatim>\<open>conf, _ := resp.Evaluator.(*config.IdentityConfig)\<close> and
  its two siblings: the pointer when the dynamic type matches, the nil pointer
  (\<open>None\<close>) otherwise.
\<close>

fun as_IdentityConfig :: "evaluator \<Rightarrow> addr option" where
  "as_IdentityConfig (IdentityConfig a) = Some a"
| "as_IdentityConfig _ = None"

fun as_MetadataConfig :: "evaluator \<Rightarrow> addr option" where
  "as_MetadataConfig (MetadataConfig a) = Some a"
| "as_MetadataConfig _ = None"

fun as_AuthorizationConfig :: "evaluator \<Rightarrow> addr option" where
  "as_AuthorizationConfig (AuthorizationConfig a) = Some a"
| "as_AuthorizationConfig _ = None"

record EvaluationResponse =
  Evaluator :: evaluator
  Success :: bool
  Object :: object
  Error :: "error option"

definition newEvaluationResponseSuccess :: "evaluator \<Rightarrow> object \<Rightarrow> EvaluationResponse" where
  "newEvaluationResponseSuccess evaluator obj =
     \<lparr>Evaluator = evaluator, Success = True, Object = obj, Error = None\<rparr>"

definition newEvaluationResponseFailure :: "evaluator \<Rightarrow> error \<Rightarrow> EvaluationResponse" where
  "newEvaluationResponseFailure evaluator err =
     \<lparr>Evaluator = evaluator, Success = False, Object = Nil, Error = Some err\<rparr>"

record APIConfig =
  IdentityConfigs :: "evaluator list"
  MetadataConfigs :: "evaluator list"
  AuthorizationConfigs :: "evaluator list"

text \<open>
  Of the inbound \<^verbatim>\<open>envoy_auth.CheckRequest\<close> the code reads one thing, the map at the
  end of the path \<^verbatim>\<open>Request.Attributes.Request.Http.Headers\<close>. Each step of that path
  but the last goes through a pointer, which may be nil (\<open>None\<close>): the four structs
  are modelled one by one. The field \<^verbatim>\<open>Request\<close> of the attribute context is called
  \<open>HttpSide\<close> here, since \<open>Request\<close> is the field of the auth context. A Go map may
  be nil too; looking a key up in a nil map finds nothing.
\<close>

record AttributeContext_HttpRequest =
  Headers :: "(string \<rightharpoonup> string) option"

record AttributeContext_Request =
  Http :: "AttributeContext_HttpRequest option"

record AttributeContext =
  HttpSide :: "AttributeContext_Request option"

record CheckRequest =
  Attributes :: "AttributeContext option"

text \<open>The caller's \<^verbatim>\<open>context.Context\<close>: all that matters of it is whether it is cancelled.\<close>

datatype cancellation = Live | Cancelled

record AuthContext =
  ParentContext :: cancellation
  Request :: "CheckRequest option"
  API :: APIConfig
  Identity :: "addr option \<rightharpoonup> object"
  Metadata :: "addr option \<rightharpoonup> object"
  Authorization :: "addr option \<rightharpoonup> object"

text \<open>
  \<^verbatim>\<open>NewAuthContext\<close> takes the request as a pointer, which it stores as it is, and the
  API configuration by value: the pointer \<^verbatim>\<open>API\<close> of the context it makes is never nil,
  and neither are the three result maps.
\<close>

definition NewAuthContext ::
  "cancellation \<Rightarrow> CheckRequest option \<Rightarrow> APIConfig \<Rightarrow> AuthContext" where
  "NewAuthContext parentCtx req apiConfig =
     \<lparr>ParentContext = parentCtx, Request = req, API = apiConfig,
      Identity = Map.empty, Metadata = Map.empty, Authorization = Map.empty\<rparr>"

section \<open>The bearer token\<close>

text \<open>
  \<^verbatim>\<open>strings.Index(s, sep)\<close> and \<^verbatim>\<open>strings.Split(s, sep)\<close> of the Go standard library, on
  byte strings: the position of the first occurrence of \<open>sep\<close>, and the pieces of \<open>s\<close>
  between consecutive occurrences of \<open>sep\<close>, found from the left. \<open>Split\<close> has an
  equation for a separator that is not empty only: the one call in this program passes
  \<^verbatim>\<open>"Bearer "\<close>, and what Go does with an empty separator is left open.
\<close>

fun Index :: "string \<Rightarrow> string \<Rightarrow> nat option" where
  "Index [] sep = (if sep = [] then Some 0 else None)"
| "Index (c # cs) sep =
     (if prefix sep (c # cs) then Some 0 else map_option Suc (Index cs sep))"

lemma Index_Some_nonempty: "Index s sep = Some m \<Longrightarrow> sep \<noteq> [] \<Longrightarrow> s \<noteq> []"
  by (cases s) auto

function (sequential) Split :: "string \<Rightarrow> string \<Rightarrow> string list" where
  "Split s (c # cs) =
     (case Index s (c # cs) of
        None \<Rightarrow> [s]
      | Some m \<Rightarrow> take m s # Split (drop (m + length (c # cs)) s) (c # cs))"
  by pat_completeness auto
termination
proof (relation "measure (\<lambda>(s, sep). length s)")
  show "wf (measure (\<lambda>(s, sep). length s))" by simp
next
  fix s cs :: string and c :: char and m :: nat
  assume "Index s (c # cs) = Some m"
  then have "s \<noteq> []" by (auto dest: Index_Some_nonempty)
  then show "((drop (m + length (c # cs)) s, c # cs), (s, c # cs)) \<in> measure (\<lambda>(s, sep). length s)"
    by auto
qed

declare Split.simps [simp del]

text \<open>
  A Go function either returns or panics. \<open>index xs i\<close> is the index expression
  \<^verbatim>\<open>xs[i]\<close>, which panics out of range, and \<open>request_headers\<close> is the expression
  \<^verbatim>\<open>authContext.Request.Attributes.Request.Http.Headers\<close>, which panics at the first nil
  pointer on its way. (The receiver \<^verbatim>\<open>authContext\<close> itself is there: the method is called
  on an auth context.)
\<close>

datatype panic = NilPointerDereference | IndexOutOfRange

datatype 'a outcome = Panic panic | Return 'a

definition index :: "'a list \<Rightarrow> nat \<Rightarrow> 'a outcome" where
  "index xs i = (if i < length xs then Return (xs ! i) else Panic IndexOutOfRange)"

definition request_headers :: "AuthContext \<Rightarrow> (string \<rightharpoonup> string) option outcome" where
  "request_headers authContext =
     (case Request authContext of
        None \<Rightarrow> Panic NilPointerDereference
      | Some req \<Rightarrow>
          (case Attributes req of
             None \<Rightarrow> Panic NilPointerDereference
           | Some attributes \<Rightarrow>
               (case HttpSide attributes of
                  None \<Rightarrow> Panic NilPointerDereference
                | Some request \<Rightarrow>
                    (case Http request of
                       None \<Rightarrow> Panic NilPointerDereference
                     | Some http \<Rightarrow> Return (Headers http)))))"

definition lookup :: "(string \<rightharpoonup> string) option \<Rightarrow> string \<Rightarrow> string \<times> bool" where
  "lookup m k = (case m of None \<Rightarrow> ([], False)
                 | Some h \<Rightarrow> (case h k of None \<Rightarrow> ([], False) | Some v \<Rightarrow> (v, True)))"

definition malformed :: error where
  "malformed = ''authorization header malformed or not provided''"

definition AuthorizationToken :: "AuthContext \<Rightarrow> (string \<times> error option) outcome" where
  "AuthorizationToken authContext =
     (case request_headers authContext of
        Panic p \<Rightarrow> Panic p
      | Return headers \<Rightarrow>
          (let (authHeader, authHeaderOK) = lookup headers ''authorization'';
               splitToken = (if authHeaderOK then Split authHeader ''Bearer '' else [])
           in if \<not> authHeaderOK \<or> length splitToken \<noteq> 2 then Return ([], Some malformed)
              else case index splitToken 1 of
                     Panic p \<Rightarrow> Panic p
                   | Return tok \<Rightarrow> Return (tok, None)))"

text \<open>
  \<open>bearer_once h tok\<close>: the header \<open>h\<close> contains \<^verbatim>\<open>"Bearer "\<close> exactly once, and \<open>tok\<close> is
  all that follows it.
\<close>

definition bearer_once :: "string \<Rightarrow> string \<Rightarrow> bool" where
  "bearer_once h tok \<longleftrightarrow>
     (\<exists>p. h = p @ ''Bearer '' @ tok \<and>
          (\<forall>p' t'. h = p' @ ''Bearer '' @ t' \<longrightarrow> p' = p \<and> t' = tok))"

section \<open>The metadata view\<close>

text \<open>
  \<^verbatim>\<open>GetType\<close> of \<^verbatim>\<open>config.MetadataConfig\<close> is not part of this file: the type tag of a
  metadata configuration is the parameter \<open>getType\<close>. The order in which \<^verbatim>\<open>range\<close>
  visits a Go map is not specified: \<open>GetMetadata\<close> takes the keys in the order \<open>keys\<close>
  in which the loop meets them, and \<open>ranges m keys\<close> says that \<open>keys\<close> is one order in
  which \<^verbatim>\<open>range\<close> can visit the map \<open>m\<close>.
\<close>

definition ranges :: "('k \<rightharpoonup> 'v) \<Rightarrow> 'k list \<Rightarrow> bool" where
  "ranges m keys \<longleftrightarrow> distinct keys \<and> set keys = dom m"

definition GetMetadata ::
  "(addr option \<Rightarrow> string) \<Rightarrow> addr option list \<Rightarrow> AuthContext \<Rightarrow> (string \<rightharpoonup> object)" where
  "GetMetadata getType keys authContext =
     foldl (\<lambda>m metadataCfg.
              case Metadata authContext metadataCfg of
                None \<Rightarrow> m
              | Some metadataObj \<Rightarrow> m(getType metadataCfg \<mapsto> metadataObj))
       Map.empty keys"

section \<open>The fan-out runners\<close>

text \<open>
  Each of \<^verbatim>\<open>evaluateOneAuthConfig\<close>, \<^verbatim>\<open>evaluateAllAuthConfigs\<close> and
  \<^verbatim>\<open>evaluateAnyAuthConfig\<close> starts one goroutine per evaluator, and the goroutines run
  interleaved with each other and with the loop that reads the response channel. A
  goroutine touches shared state at four places, which are its atomic actions:
  \<^item> \<open>WSelect\<close>: the \<^verbatim>\<open>select\<close> of \<^verbatim>\<open>evaluateAuthConfig\<close> looks at \<^verbatim>\<open>ctx.Done()\<close>;
  \<^item> \<open>WCall\<close>: \<^verbatim>\<open>config.Call(authContext)\<close> reads the auth context;
  \<^item> \<open>WSend resp\<close>: the success or the failure callback sends \<open>resp\<close> on the channel;
  \<^item> \<open>WCancel\<close>: \<^verbatim>\<open>cancel()\<close>;
  and \<open>WDone\<close> is \<^verbatim>\<open>waitGroup.Done()\<close> behind it.
\<close>

datatype wpc = WSelect | WCall | WSend EvaluationResponse | WCancel | WDone

text \<open>
  The state of one phase: the auth context, the goroutines with the evaluator each one
  captured (\<^verbatim>\<open>objConfig\<close>), the runner's context \<^verbatim>\<open>ctx\<close>, the channel \<^verbatim>\<open>respChannel\<close>
  (everything sent so far, how much of it the loop has received, whether it is
  closed), and of the reading loop the variable \<^verbatim>\<open>lastError\<close> and how the function
  ended, once it has: \<open>Some (Return None)\<close> is a return of nil, \<open>Some (Return (Some err))\<close>
  a return of the error \<open>err\<close>, and \<open>Some (Panic p)\<close> a panic in one of the goroutines,
  which ends the whole program.
\<close>

record fanout =
  actx :: AuthContext
  workers :: "(evaluator \<times> wpc) list"
  ctxDone :: bool
  sent :: "EvaluationResponse list"
  recv :: nat
  closed :: bool
  lastError :: "error option"
  ret :: "error option outcome option"

datatype runner = evaluateOneAuthConfig | evaluateAllAuthConfigs | evaluateAnyAuthConfig

text \<open>
  \<open>aborted\<close>: whether the \<^verbatim>\<open>select\<close> takes the branch \<^verbatim>\<open><-ctx.Done()\<close>. The context of
  \<^verbatim>\<open>evaluateAnyAuthConfig\<close> is \<^verbatim>\<open>context.Background()\<close>, which is never done.
\<close>

fun aborted :: "runner \<Rightarrow> fanout \<Rightarrow> bool" where
  "aborted evaluateAnyAuthConfig s = False"
| "aborted rn s = ctxDone s"

text \<open>
  What a goroutine does next when \<^verbatim>\<open>evaluateAuthConfig\<close> has returned nil (after the
  success callback, or on an aborted context), and when it has returned an error and
  the failure callback has sent it.
\<close>

fun after_nil :: "runner \<Rightarrow> wpc" where
  "after_nil evaluateOneAuthConfig = WCancel"
| "after_nil evaluateAllAuthConfigs = WDone"
| "after_nil evaluateAnyAuthConfig = WDone"

fun after_err :: "runner \<Rightarrow> wpc" where
  "after_err evaluateOneAuthConfig = WDone"
| "after_err evaluateAllAuthConfigs = WCancel"
| "after_err evaluateAnyAuthConfig = WDone"

text \<open>
  \<^verbatim>\<open>Call\<close> of an evaluator belongs to \<^verbatim>\<open>pkg/config\<close>: it is the parameter \<open>call\<close>, a
  function of the evaluator and of the auth context as it is when the call is made,
  to an error (\<open>Inl\<close>) or a result object (\<open>Inr\<close>). On a nil interface value there is
  no method to call: \<^verbatim>\<open>config.Call(authContext)\<close> panics.
\<close>

type_synonym caller = "evaluator \<Rightarrow> AuthContext \<Rightarrow> error + object"

definition goroutine :: "runner \<Rightarrow> caller \<Rightarrow> nat \<Rightarrow> fanout \<Rightarrow> fanout" where
  "goroutine rn call i s =
     (case workers s ! i of
        (objConfig, pc) \<Rightarrow>
          (case pc of
             WSelect \<Rightarrow>
               s\<lparr>workers := (workers s)[i := (objConfig, if aborted rn s then after_nil rn else WCall)]\<rparr>
           | WCall \<Rightarrow>
               (if objConfig = NilEvaluator then s\<lparr>ret := Some (Panic NilPointerDereference)\<rparr>
                else s\<lparr>workers := (workers s)[i := (objConfig, WSend
                    (case call objConfig (actx s) of
                       Inl err \<Rightarrow> newEvaluationResponseFailure objConfig err
                     | Inr authObj \<Rightarrow> newEvaluationResponseSuccess objConfig authObj))]\<rparr>)
           | WSend resp \<Rightarrow>
               s\<lparr>sent := sent s @ [resp],
                 workers := (workers s)[i := (objConfig, if Success resp then after_nil rn else after_err rn)]\<rparr>
           | WCancel \<Rightarrow> s\<lparr>ctxDone := True, workers := (workers s)[i := (objConfig, WDone)]\<rparr>
           | WDone \<Rightarrow> s))"

text \<open>\<^verbatim>\<open>waitGroup.Wait()\<close> returns when every goroutine is done; then the channel is closed.\<close>

definition closer :: "fanout \<Rightarrow> fanout" where
  "closer s = s\<lparr>closed := True\<rparr>"

section \<open>The three phases\<close>

text \<open>
  One turn of \<^verbatim>\<open>for resp := range respChannel\<close> in each of the three functions: the
  loop takes the next response when there is one, and ends when the channel is closed
  and empty.
\<close>

definition identity_range :: "fanout \<Rightarrow> fanout" where
  "identity_range s =
     (if recv s < length (sent s) then
        (let resp = sent s ! recv s;
             conf = as_IdentityConfig (Evaluator resp);
             obj = Object resp
         in if Success resp
            then s\<lparr>recv := Suc (recv s),
                   actx := (actx s)\<lparr>Identity := (Identity (actx s))(conf \<mapsto> obj)\<rparr>,
                   ret := Some (Return None)\<rparr>
            else s\<lparr>recv := Suc (recv s), lastError := Error resp\<rparr>)
      else if closed s then s\<lparr>ret := Some (Return (lastError s))\<rparr> else s)"

definition metadata_range :: "fanout \<Rightarrow> fanout" where
  "metadata_range s =
     (if recv s < length (sent s) then
        (let resp = sent s ! recv s;
             conf = as_MetadataConfig (Evaluator resp);
             obj = Object resp
         in if Success resp
            then s\<lparr>recv := Suc (recv s),
                   actx := (actx s)\<lparr>Metadata := (Metadata (actx s))(conf \<mapsto> obj)\<rparr>\<rparr>
            else s\<lparr>recv := Suc (recv s)\<rparr>)
      else if closed s then s\<lparr>ret := Some (Return None)\<rparr> else s)"

definition authorization_range :: "fanout \<Rightarrow> fanout" where
  "authorization_range s =
     (if recv s < length (sent s) then
        (let resp = sent s ! recv s;
             conf = as_AuthorizationConfig (Evaluator resp);
             obj = Object resp
         in if Success resp
            then s\<lparr>recv := Suc (recv s),
                   actx := (actx s)\<lparr>Authorization := (Authorization (actx s))(conf \<mapsto> obj)\<rparr>\<rparr>
            else s\<lparr>recv := Suc (recv s), ret := Some (Return (Error resp))\<rparr>)
      else if closed s then s\<lparr>ret := Some (Return None)\<rparr> else s)"

datatype phase = IdentityPhase | MetadataPhase | AuthorizationPhase

fun runner_of :: "phase \<Rightarrow> runner" where
  "runner_of IdentityPhase = evaluateOneAuthConfig"
| "runner_of MetadataPhase = evaluateAnyAuthConfig"
| "runner_of AuthorizationPhase = evaluateAllAuthConfigs"

fun range_of :: "phase \<Rightarrow> fanout \<Rightarrow> fanout" where
  "range_of IdentityPhase = identity_range"
| "range_of MetadataPhase = metadata_range"
| "range_of AuthorizationPhase = authorization_range"

fun configs_of :: "phase \<Rightarrow> APIConfig \<Rightarrow> evaluator list" where
  "configs_of IdentityPhase = IdentityConfigs"
| "configs_of MetadataPhase = MetadataConfigs"
| "configs_of AuthorizationPhase = AuthorizationConfigs"

section \<open>Scheduling\<close>

text \<open>
  The actions that can happen next. A goroutine that is not done can move, except that
  a send waits while the channel, made with room for \<^verbatim>\<open>len(configs)\<close> responses, is full.
  The channel is closed once every goroutine is done. The loop can move when a response
  is waiting or the channel is closed.
\<close>

datatype action = Worker nat | Closer | Reducer

definition runnable :: "fanout \<Rightarrow> nat \<Rightarrow> bool" where
  "runnable s i =
     (case snd (workers s ! i) of
        WDone \<Rightarrow> False
      | WSend resp \<Rightarrow> length (sent s) - recv s < length (workers s)
      | _ \<Rightarrow> True)"

definition enabled :: "fanout \<Rightarrow> action list" where
  "enabled s =
     map Worker (filter (runnable s) [0..<length (workers s)])
     @ (if list_all (\<lambda>w. snd w = WDone) (workers s) \<and> \<not> closed s then [Closer] else [])
     @ (if recv s < length (sent s) \<or> closed s then [Reducer] else [])"

fun fire :: "phase \<Rightarrow> caller \<Rightarrow> action \<Rightarrow> fanout \<Rightarrow> fanout" where
  "fire ph call (Worker i) s = goroutine (runner_of ph) call i s"
| "fire ph call Closer s = closer s"
| "fire ph call Reducer s = range_of ph s"

text \<open>
  A schedule is a list of events. \<open>Pick n\<close> lets one of the enabled actions happen (the
  one at position \<open>n\<close>, counted round the list of enabled actions); \<open>ParentCancel\<close> is
  the caller cancelling the parent context at this moment. When the schedule is used up
  the first enabled action is taken each time. Every interleaving is the run of some
  schedule.
\<close>

datatype event = Pick nat | ParentCancel

definition cancelParent :: "fanout \<Rightarrow> fanout" where
  "cancelParent s = s\<lparr>actx := (actx s)\<lparr>ParentContext := Cancelled\<rparr>\<rparr>"

definition pick :: "nat \<Rightarrow> action list \<Rightarrow> action" where
  "pick n acts = acts ! (n mod length acts)"

fun step :: "phase \<Rightarrow> caller \<Rightarrow> event \<Rightarrow> fanout \<Rightarrow> fanout" where
  "step ph call (Pick n) s = fire ph call (pick n (enabled s)) s"
| "step ph call ParentCancel s = cancelParent s"

fun rank :: "wpc \<Rightarrow> nat" where
  "rank WSelect = 4"
| "rank WCall = 3"
| "rank (WSend resp) = 2"
| "rank WCancel = 1"
| "rank WDone = 0"

definition weight :: "fanout \<Rightarrow> nat" where
  "weight s =
     2 * sum_list (map (\<lambda>w. rank (snd w)) (workers s)) + (length (sent s) - recv s)
     + (if closed s then 0 else 1) + (if ret s = None then 1 else 0)"

lemma pick_in: "acts \<noteq> [] \<Longrightarrow> pick n acts \<in> set acts"
  by (simp add: pick_def)

lemma Worker_enabled: "Worker i \<in> set (enabled s) \<longleftrightarrow> i < length (workers s) \<and> runnable s i"
  by (auto simp: enabled_def)

lemma Closer_enabled: "Closer \<in> set (enabled s) \<longleftrightarrow> (\<forall>w \<in> set (workers s). snd w = WDone) \<and> \<not> closed s"
  by (auto simp: enabled_def list_all_iff)

lemma Reducer_enabled: "Reducer \<in> set (enabled s) \<longleftrightarrow> recv s < length (sent s) \<or> closed s"
  by (auto simp: enabled_def)

text \<open>
  Every action uses up some of what is left to do, which \<open>weight\<close> measures, so a run
  is finite whatever the schedule.
\<close>

definition ranks :: "(evaluator \<times> wpc) list \<Rightarrow> nat" where
  "ranks ws = sum_list (map (\<lambda>w. rank (snd w)) ws)"

lemma ranks_update:
  "i < length ws \<Longrightarrow> ranks (ws[i := w]) + rank (snd (ws ! i)) = ranks ws + rank (snd w)"
  unfolding ranks_def
proof (induction ws arbitrary: i)
  case Nil
  then show ?case by simp
next
  case (Cons v ws)
  then show ?case by (cases i) (auto simp: add.assoc)
qed

lemma rank_after_nil: "rank (after_nil rn) \<le> 1"
  by (cases rn) auto

lemma rank_after_err: "rank (after_err rn) \<le> 1"
  by (cases rn) auto

lemma weight_goroutine:
  assumes "i < length (workers s)" and "runnable s i" and ret: "ret s = None"
  shows "weight (goroutine rn call i s) < weight s"
proof -
  obtain e pc where w: "workers s ! i = (e, pc)" by (cases "workers s ! i")
  note u = ranks_update [OF assms(1), unfolded w, simplified]
  show ?thesis
  proof (cases pc)
    case WSelect
    then show ?thesis
      using u [of "(e, if aborted rn s then after_nil rn else WCall)"] w rank_after_nil [of rn]
      by (auto simp: goroutine_def weight_def ranks_def [symmetric])
  next
    case WCall
    then show ?thesis
      using u [of "(e, WSend (case call e (actx s) of
                       Inl err \<Rightarrow> newEvaluationResponseFailure e err
                     | Inr authObj \<Rightarrow> newEvaluationResponseSuccess e authObj))"] w ret
      by (auto simp: goroutine_def weight_def ranks_def [symmetric])
  next
    case (WSend resp)
    then show ?thesis
      using u [of "(e, if Success resp then after_nil rn else after_err rn)"] w
        rank_after_nil [of rn] rank_after_err [of rn]
      by (auto simp: goroutine_def weight_def ranks_def [symmetric])
  next
    case WCancel
    then show ?thesis
      using u [of "(e, WDone)"] w
      by (auto simp: goroutine_def weight_def ranks_def [symmetric])
  next
    case WDone
    with assms w show ?thesis by (simp add: runnable_def)
  qed
qed

lemma weight_closer: "\<not> closed s \<Longrightarrow> weight (closer s) < weight s"
  by (simp add: closer_def weight_def)

lemma weight_range:
  "ret s = None \<Longrightarrow> recv s < length (sent s) \<or> closed s \<Longrightarrow> weight (range_of ph s) < weight s"
  by (cases ph) (auto simp: weight_def identity_range_def metadata_range_def authorization_range_def Let_def)

lemma weight_fire:
  "ret s = None \<Longrightarrow> a \<in> set (enabled s) \<Longrightarrow> weight (fire ph call a s) < weight s"
  by (cases a) (auto simp: Worker_enabled Closer_enabled Reducer_enabled
      intro: weight_goroutine weight_closer weight_range)

lemma weight_cancelParent: "weight (cancelParent s) = weight s"
  by (simp add: cancelParent_def weight_def)

text \<open>
  \<open>run\<close> lets the phase go on, event by event, until the reading function has returned
  (or nothing could move, which the theorems below exclude).
\<close>

function run :: "phase \<Rightarrow> caller \<Rightarrow> event list \<Rightarrow> fanout \<Rightarrow> fanout" where
  "run ph call sched s =
     (if ret s \<noteq> None \<or> enabled s = [] then s
      else case sched of
             [] \<Rightarrow> run ph call [] (step ph call (Pick 0) s)
           | ev # rest \<Rightarrow> run ph call rest (step ph call ev s))"
  by pat_completeness auto
termination
proof (relation "measures [\<lambda>(ph, call, sched, s). weight s, \<lambda>(ph, call, sched, s). length sched]")
  show "wf (measures [\<lambda>(ph, call, sched, s). weight s, \<lambda>(ph, call, sched, s). length sched])"
    by simp
next
  fix ph :: phase and call :: caller and sched :: "event list" and s :: fanout
  assume "\<not> (ret s \<noteq> None \<or> enabled s = [])" and "sched = []"
  then show "((ph, call, [], step ph call (Pick 0) s), ph, call, sched, s)
      \<in> measures [\<lambda>(ph, call, sched, s). weight s, \<lambda>(ph, call, sched, s). length sched]"
    by (simp add: weight_fire pick_in)
next
  fix ph :: phase and call :: caller and sched :: "event list" and s :: fanout
    and ev :: event and rest :: "event list"
  assume "\<not> (ret s \<noteq> None \<or> enabled s = [])" and "sched = ev # rest"
  then show "((ph, call, rest, step ph call ev s), ph, call, sched, s)
      \<in> measures [\<lambda>(ph, call, sched, s). weight s, \<lambda>(ph, call, sched, s). length sched]"
    by (cases ev) (simp_all add: weight_fire pick_in weight_cancelParent)
qed

declare run.simps [simp del]


text \<open>
  The start of a phase: \<^verbatim>\<open>make(chan EvaluationResponse, len(configs))\<close>, and one goroutine
  for each evaluator, none of which has moved yet.
\<close>

definition spawn :: "evaluator list \<Rightarrow> AuthContext \<Rightarrow> fanout" where
  "spawn configs authContext =
     \<lparr>actx = authContext, workers = map (\<lambda>authConfig. (authConfig, WSelect)) configs,
      ctxDone = False, sent = [], recv = 0, closed = False, lastError = None, ret = None\<rparr>"

text \<open>
  The three phase functions, each under a schedule of its own, give the state in which
  the function returns: \<open>ret\<close> is how it ended and \<open>actx\<close> the auth context then.
  Goroutines that are still running at that moment can only send on the channel that
  nobody reads any more and cancel the context of their own runner; they are left out
  of what follows.
\<close>

definition evaluateIdentityConfigs :: "caller \<Rightarrow> event list \<Rightarrow> AuthContext \<Rightarrow> fanout" where
  "evaluateIdentityConfigs call sched authContext =
     run IdentityPhase call sched (spawn (IdentityConfigs (API authContext)) authContext)"

definition evaluateMetadataConfigs :: "caller \<Rightarrow> event list \<Rightarrow> AuthContext \<Rightarrow> fanout" where
  "evaluateMetadataConfigs call sched authContext =
     run MetadataPhase call sched (spawn (MetadataConfigs (API authContext)) authContext)"

definition evaluateAuthorizationConfigs :: "caller \<Rightarrow> event list \<Rightarrow> AuthContext \<Rightarrow> fanout" where
  "evaluateAuthorizationConfigs call sched authContext =
     run AuthorizationPhase call sched (spawn (AuthorizationConfigs (API authContext)) authContext)"

text \<open>
  \<^verbatim>\<open>Evaluate\<close>, under one schedule for each phase: \<open>None\<close> if a phase never returns;
  a panic; or the error returned (\<open>None\<close> is nil, allow) with the auth context at
  that moment.
\<close>

definition Evaluate ::
  "caller \<Rightarrow> event list \<times> event list \<times> event list \<Rightarrow> AuthContext
     \<Rightarrow> (error option \<times> AuthContext) outcome option" where
  "Evaluate call scheds authContext =
     (case scheds of
        (sched1, sched2, sched3) \<Rightarrow>
          (let p1 = evaluateIdentityConfigs call sched1 authContext in
           case ret p1 of
             None \<Rightarrow> None
           | Some (Panic p) \<Rightarrow> Some (Panic p)
           | Some (Return (Some err)) \<Rightarrow> Some (Return (Some err, actx p1))
           | Some (Return None) \<Rightarrow>
               (let p2 = evaluateMetadataConfigs call sched2 (actx p1) in
                case ret p2 of
                  None \<Rightarrow> None
                | Some (Panic p) \<Rightarrow> Some (Panic p)
                | Some (Return _) \<Rightarrow>
                    (let p3 = evaluateAuthorizationConfigs call sched3 (actx p2) in
                     case ret p3 of
                       None \<Rightarrow> None
                     | Some (Panic p) \<Rightarrow> Some (Panic p)
                     | Some (Return (Some err)) \<Rightarrow> Some (Return (Some err, actx p3))
                     | Some (Return None) \<Rightarrow> Some (Return (None, actx p3))))))"

section \<open>Every phase returns\<close>

lemma enabled_nonempty: "enabled s \<noteq> []"
proof (cases "\<forall>w \<in> set (workers s). snd w = WDone")
  case True
  then show ?thesis by (auto simp: enabled_def list_all_iff)
next
  case False
  then obtain i where i: "i < length (workers s)" and nd: "snd (workers s ! i) \<noteq> WDone"
    by (auto simp: in_set_conv_nth)
  show ?thesis
  proof (cases "runnable s i")
    case True
    with i have "Worker i \<in> set (enabled s)" by (simp add: Worker_enabled)
    then show ?thesis by auto
  next
    case False
    with nd i have "recv s < length (sent s)"
      by (auto simp: runnable_def split: wpc.splits)
    then have "Reducer \<in> set (enabled s)" by (simp add: Reducer_enabled)
    then show ?thesis by auto
  qed
qed


lemma run_returns: "ret (run ph call sched s) \<noteq> None"
proof (induction ph call sched s rule: run.induct)
  case (1 ph call sched s)
  show ?case
  proof (cases "ret s \<noteq> None")
    case True
    then show ?thesis by (simp add: run.simps)
  next
    case False
    then have c: "\<not> (ret s \<noteq> None \<or> enabled s = [])" by (simp add: enabled_nonempty)
    show ?thesis
    proof (cases sched)
      case Nil
      with c "1.IH"(1) show ?thesis by (subst run.simps) simp
    next
      case (Cons ev rest)
      with c "1.IH"(2) show ?thesis by (subst run.simps) simp
    qed
  qed
qed


lemma run_stop: "ret s \<noteq> None \<Longrightarrow> run ph call sched s = s"
  by (subst run.simps) simp

lemma run_Nil:
  "ret s = None \<Longrightarrow> run ph call [] s = run ph call [] (step ph call (Pick 0) s)"
  by (rule trans [OF run.simps]) (simp add: enabled_nonempty)

lemma run_Cons:
  "ret s = None \<Longrightarrow> run ph call (ev # rest) s = run ph call rest (step ph call ev s)"
  by (rule trans [OF run.simps]) (simp add: enabled_nonempty)

lemma run_invariant:
  assumes "P s"
    and fire: "\<And>s a. P s \<Longrightarrow> ret s = None \<Longrightarrow> a \<in> set (enabled s) \<Longrightarrow> P (fire ph call a s)"
    and cancel: "\<And>s. P s \<Longrightarrow> ret s = None \<Longrightarrow> P (cancelParent s)"
  shows "P (run ph call sched s)"
  using assms
proof (induction ph call sched s rule: run.induct)
  case (1 ph call sched s)
  show ?case
  proof (cases "ret s \<noteq> None")
    case True
    from "1.prems"(1) show ?thesis by (simp only: run_stop [OF True])
  next
    case False
    then have r: "ret s = None" by simp
    have c: "\<not> (ret s \<noteq> None \<or> enabled s = [])" using r by (simp add: enabled_nonempty)
    have st: "P (step ph call ev s)" for ev
    proof (cases ev)
      case (Pick n)
      have mem: "pick n (enabled s) \<in> set (enabled s)" by (simp add: pick_in enabled_nonempty)
      from "1.prems"(2) [OF "1.prems"(1) r mem] show ?thesis by (simp only: Pick step.simps)
    next
      case ParentCancel
      from "1.prems"(3) [OF "1.prems"(1) r] show ?thesis by (simp only: ParentCancel step.simps)
    qed
    show ?thesis
    proof (cases sched)
      case Nil
      have "P (run ph call [] (step ph call (Pick 0) s))"
        by (rule "1.IH"(1) [OF c Nil st "1.prems"(2,3)])
      then show ?thesis by (simp only: Nil run_Nil [OF r])
    next
      case (Cons ev rest)
      have "P (run ph call rest (step ph call ev s))"
        by (rule "1.IH"(2) [OF c Cons st "1.prems"(2,3)])
      then show ?thesis by (simp only: Cons run_Cons [OF r])
    qed
  qed
qed


section \<open>Properties of the token and of the metadata view\<close>

lemma dom_view_foldl:
  "dom (foldl (\<lambda>m metadataCfg.
              case Metadata c metadataCfg of
                None \<Rightarrow> m
              | Some metadataObj \<Rightarrow> m(getType metadataCfg \<mapsto> metadataObj)) m keys)
     = dom m \<union> getType ` (set keys \<inter> dom (Metadata c))"
  by (induction keys arbitrary: m) (auto split: option.splits)

lemma view_foldl_value:
  "foldl (\<lambda>m metadataCfg.
              case Metadata c metadataCfg of
                None \<Rightarrow> m
              | Some metadataObj \<Rightarrow> m(getType metadataCfg \<mapsto> metadataObj)) m keys t = Some v \<Longrightarrow>
   m t = Some v \<or> (\<exists>k \<in> set keys. getType k = t \<and> Metadata c k = Some v)"
proof (induction keys arbitrary: m)
  case Nil
  then show ?case by simp
next
  case (Cons k keys)
  from Cons.IH [OF Cons.prems [simplified]] show ?case
    by (auto split: option.splits if_splits)
qed

text \<open>
  Claim C8. Whatever the order in which the loop of \<^verbatim>\<open>GetMetadata\<close> visits the recorded
  metadata results, the view it returns is keyed by type tag and has exactly one entry
  for each type tag that occurs among the recorded results, so as many entries as there
  are distinct type tags; the object under a tag is the result of one of the recorded
  configurations with that tag. Two results recorded under the same tag therefore give
  a single entry, one object taking the place of the other.
\<close>

theorem GetMetadata_view:
  assumes "ranges (Metadata authContext) keys"
  shows "dom (GetMetadata getType keys authContext) = getType ` dom (Metadata authContext)
       \<and> card (dom (GetMetadata getType keys authContext)) = card (getType ` dom (Metadata authContext))
       \<and> (\<forall>t v. GetMetadata getType keys authContext t = Some v \<longrightarrow>
            (\<exists>metadataCfg. getType metadataCfg = t \<and> Metadata authContext metadataCfg = Some v))"
proof -
  from assms have k: "set keys = dom (Metadata authContext)" by (simp add: ranges_def)
  have d: "dom (GetMetadata getType keys authContext) = getType ` dom (Metadata authContext)"
    by (simp add: GetMetadata_def dom_view_foldl k)
  have v: "\<exists>metadataCfg. getType metadataCfg = t \<and> Metadata authContext metadataCfg = Some v"
    if "GetMetadata getType keys authContext t = Some v" for t v
    using view_foldl_value [where c = authContext and getType = getType and m = Map.empty
        and keys = keys and t = t and v = v] that
    by (auto simp: GetMetadata_def)
  from d v show ?thesis by simp
qed

theorem GetMetadata_view_witness:
  "ranges (Metadata ((NewAuthContext Live None
        \<lparr>IdentityConfigs = [], MetadataConfigs = [], AuthorizationConfigs = []\<rparr>)
        \<lparr>Metadata := [Some 1 \<mapsto> Obj ''a'', Some 2 \<mapsto> Obj ''b'']\<rparr>)) [Some 1, Some 2]
   \<and> dom (GetMetadata (\<lambda>k. ''UMA'') [Some 1, Some 2] ((NewAuthContext Live None
        \<lparr>IdentityConfigs = [], MetadataConfigs = [], AuthorizationConfigs = []\<rparr>)
        \<lparr>Metadata := [Some 1 \<mapsto> Obj ''a'', Some 2 \<mapsto> Obj ''b'']\<rparr>)) = {''UMA''}
   \<and> card (dom (GetMetadata (\<lambda>k. ''UMA'') [Some 1, Some 2] ((NewAuthContext Live None
        \<lparr>IdentityConfigs = [], MetadataConfigs = [], AuthorizationConfigs = []\<rparr>)
        \<lparr>Metadata := [Some 1 \<mapsto> Obj ''a'', Some 2 \<mapsto> Obj ''b'']\<rparr>))) = 1"
proof -
  let ?c = "(NewAuthContext Live None
        \<lparr>IdentityConfigs = [], MetadataConfigs = [], AuthorizationConfigs = []\<rparr>)
        \<lparr>Metadata := [Some 1 \<mapsto> Obj ''a'', Some 2 \<mapsto> Obj ''b'']\<rparr>"
  have r: "ranges (Metadata ?c) [Some 1, Some 2]"
    by (auto simp: ranges_def)
  from GetMetadata_view [OF r, of "\<lambda>k. ''UMA''"] r show ?thesis
    by simp
qed

subsection \<open>Splitting at the one occurrence of the separator\<close>

lemma Index_None_iff: "Index s sep = None \<longleftrightarrow> \<not> sublist sep s"
  by (induction s) (auto simp: sublist_Cons_right)

lemma Index_Some_prefix: "Index s sep = Some m \<Longrightarrow> m \<le> length s \<and> prefix sep (drop m s)"
proof (induction s arbitrary: m)
  case Nil
  then show ?case by (auto split: if_splits)
next
  case (Cons c cs)
  then show ?case by (auto split: if_splits)
qed

lemma Index_Some_first: "Index s sep = Some m \<Longrightarrow> k < m \<Longrightarrow> \<not> prefix sep (drop k s)"
proof (induction s arbitrary: m k)
  case Nil
  then show ?case by (auto split: if_splits)
next
  case (Cons c cs)
  show ?case
  proof (cases k)
    case 0
    with Cons.prems show ?thesis by (auto split: if_splits)
  next
    case (Suc j)
    with Cons.prems Cons.IH show ?thesis by (auto split: if_splits)
  qed
qed

lemma Split_nonempty: "Split s (c # cs) \<noteq> []"
  by (subst Split.simps) (simp split: option.splits)

lemma Split_None: "Index s (c # cs) = None \<Longrightarrow> Split s (c # cs) = [s]"
  by (subst Split.simps) simp

lemma Split_Some:
  "Index s (c # cs) = Some m \<Longrightarrow>
   Split s (c # cs) = take m s # Split (drop (m + length (c # cs)) s) (c # cs)"
  by (subst Split.simps) simp

lemma Split_length_1: "length (Split s (c # cs)) = 1 \<longleftrightarrow> Index s (c # cs) = None"
proof (cases "Index s (c # cs)")
  case None
  then show ?thesis by (simp add: Split_None)
next
  case (Some m)
  with Split_nonempty [of "drop (m + length (c # cs)) s" c cs] show ?thesis
    by (simp add: Split_Some)
qed

lemma Split_two:
  "Split s (c # cs) = [a, b] \<longleftrightarrow>
   (\<exists>m. Index s (c # cs) = Some m \<and> a = take m s \<and> b = drop (m + length (c # cs)) s
        \<and> Index b (c # cs) = None)"
proof (cases "Index s (c # cs)")
  case None
  then show ?thesis by (simp add: Split_None)
next
  case (Some m)
  let ?t = "drop (m + length (c # cs)) s"
  show ?thesis
  proof (cases "Index ?t (c # cs)")
    case None
    with Some show ?thesis by (auto simp: Split_Some Split_None)
  next
    case (Some n)
    with Split_nonempty [of "drop (n + length (c # cs)) ?t" c cs] \<open>Index s (c # cs) = Some m\<close>
    show ?thesis by (auto simp: Split_Some)
  qed
qed


lemma Bearer_no_overlap: "0 < d \<Longrightarrow> d < 7 \<Longrightarrow> ''Bearer '' ! d \<noteq> CHR ''B''"
proof -
  assume "0 < d" "d < 7"
  then have "d = 1 \<or> d = 2 \<or> d = 3 \<or> d = 4 \<or> d = 5 \<or> d = 6" by arith
  then show ?thesis by (auto simp: numeral_eq_Suc)
qed

lemma prefix_drop_decomp:
  "m \<le> length s \<Longrightarrow> prefix sep (drop m s) \<Longrightarrow> s = take m s @ sep @ drop (m + length sep) s"
proof -
  assume "m \<le> length s" and "prefix sep (drop m s)"
  then obtain r where r: "drop m s = sep @ r" by (auto elim: prefixE)
  then have "drop (length sep) (drop m s) = r" by simp
  then have "drop (m + length sep) s = r" by (simp add: add.commute)
  with r have "drop m s = sep @ drop (m + length sep) s" by simp
  then have "take m s @ drop m s = take m s @ sep @ drop (m + length sep) s" by simp
  then show ?thesis by simp
qed

lemma overlap_nth:
  assumes "h = p @ B @ tok" and "h = p' @ B @ t'"
    and "length p < length p'" and "length p' < length p + length B"
  shows "B ! (length p' - length p) = B ! 0"
proof -
  have "B \<noteq> []" using assms(3,4) by auto
  then have "(p' @ B @ t') ! length p' = B ! 0" by (simp add: nth_append)
  moreover have "length p' - length p < length B" using assms(3,4) by arith
  then have "(p @ B @ tok) ! length p' = B ! (length p' - length p)"
    using assms(3) by (simp add: nth_append)
  ultimately show ?thesis using assms(1,2) by simp
qed

lemma Split_once_1:
  assumes sp: "Split h (c # cs) = [p, tok]"
    and nov: "\<And>d. 0 < d \<Longrightarrow> d < length (c # cs) \<Longrightarrow> (c # cs) ! d \<noteq> (c # cs) ! 0"
  shows "h = p @ (c # cs) @ tok \<and> (\<forall>p' t'. h = p' @ (c # cs) @ t' \<longrightarrow> p' = p \<and> t' = tok)"
proof -
  define B where "B = c # cs"
  from sp obtain m where m: "Index h B = Some m" and p: "p = take m h"
    and tok: "tok = drop (m + length B) h" and none: "Index tok B = None"
    unfolding B_def using Split_two [of h c cs p tok] by auto
  from Index_Some_prefix [OF m] have le: "m \<le> length h" and pre: "prefix B (drop m h)" by simp_all
  have h: "h = p @ B @ tok" using prefix_drop_decomp [OF le pre] p tok by simp
  have lp: "length p = m" using p le by simp
  have uniq: "p' = p \<and> t' = tok" if d: "h = p' @ B @ t'" for p' t'
  proof -
    let ?k = "length p'"
    from d have dk: "drop ?k h = B @ t'" by simp
    then have prek: "prefix B (drop ?k h)" by simp
    have "\<not> ?k < m" using Index_Some_first [OF m, of ?k] prek by auto
    then have ge: "m \<le> ?k" by simp
    have "\<not> m < ?k"
    proof
      assume gt: "m < ?k"
      show False
      proof (cases "?k < m + length B")
        case True
        have 1: "length p < length p'" and 2: "length p' < length p + length B"
          using lp gt True by simp_all
        have "0 < length p' - length p" and "length p' - length p < length B"
          using 1 2 by arith+
        with nov [of "length p' - length p"] have "B ! (length p' - length p) \<noteq> B ! 0"
          by (simp add: B_def)
        with overlap_nth [OF h d 1 2] show False by simp
      next
        case False
        then have k7: "m + length B \<le> ?k" by simp
        have "tok = drop (m + length B) (p' @ B @ t')" using tok d by simp
        also have "\<dots> = drop (m + length B) p' @ B @ t'" using k7 by simp
        finally have "sublist B tok" by (metis sublist_appendI)
        with none show False by (simp add: Index_None_iff)
      qed
    qed
    with ge have k: "?k = m" by simp
    from d have "take ?k h = p'" by simp
    with k p have 1: "p' = p" by simp
    from d h 1 have "p @ B @ t' = p @ B @ tok" by simp
    then have 2: "t' = tok" by simp
    from 1 2 show ?thesis by simp
  qed
  from h uniq show ?thesis unfolding B_def by blast
qed

lemma Split_once_2:
  assumes h: "h = p @ (c # cs) @ tok"
    and uniq: "\<forall>p' t'. h = p' @ (c # cs) @ t' \<longrightarrow> p' = p \<and> t' = tok"
  shows "Split h (c # cs) = [p, tok]"
proof -
  define B where "B = c # cs"
  have hB: "h = p @ B @ tok" using h by (simp add: B_def)
  have uB: "\<forall>p' t'. h = p' @ B @ t' \<longrightarrow> p' = p \<and> t' = tok" using uniq by (simp add: B_def)
  have "sublist B h" unfolding hB by (rule sublist_appendI)
  then obtain m where m: "Index h B = Some m" by (cases "Index h B") (auto simp: Index_None_iff)
  from Index_Some_prefix [OF m] have le: "m \<le> length h" and pre: "prefix B (drop m h)" by simp_all
  from prefix_drop_decomp [OF le pre] uB
  have p: "take m h = p" and t: "drop (m + length B) h = tok" by blast+
  have none: "Index tok B = None"
  proof (rule ccontr)
    assume "Index tok B \<noteq> None"
    then have "sublist B tok" by (simp add: Index_None_iff)
    then obtain a b where "tok = a @ B @ b" by (auto simp: sublist_def)
    with hB have "h = (p @ B @ a) @ B @ b" by simp
    with uB have "p @ B @ a = p" by blast
    moreover have "B \<noteq> []" by (simp add: B_def)
    ultimately show False by simp
  qed
  have "\<exists>m. Index h (c # cs) = Some m \<and> p = take m h \<and> tok = drop (m + length (c # cs)) h
        \<and> Index tok (c # cs) = None"
    using m p t none unfolding B_def by blast
  then show ?thesis by (simp only: Split_two)
qed

lemma Split_Bearer_once:
  "(\<exists>p. Split h ''Bearer '' = [p, tok]) \<longleftrightarrow> bearer_once h tok"
proof
  assume "\<exists>p. Split h ''Bearer '' = [p, tok]"
  then obtain p where sp: "Split h ''Bearer '' = [p, tok]" by blast
  have nov: "''Bearer '' ! d \<noteq> ''Bearer '' ! 0" if "0 < d" and "d < length ''Bearer ''" for d
  proof -
    from that(2) have "d < 7" by simp
    from Bearer_no_overlap [OF that(1) this] show ?thesis by simp
  qed
  have "h = p @ ''Bearer '' @ tok \<and>
        (\<forall>p' t'. h = p' @ ''Bearer '' @ t' \<longrightarrow> p' = p \<and> t' = tok)"
    by (rule Split_once_1 [OF sp nov])
  then show "bearer_once h tok"
    unfolding bearer_once_def by blast
next
  assume "bearer_once h tok"
  then obtain p where "h = p @ ''Bearer '' @ tok"
    and "\<forall>p' t'. h = p' @ ''Bearer '' @ t' \<longrightarrow> p' = p \<and> t' = tok"
    unfolding bearer_once_def by (elim exE conjE)
  from Split_once_2 [OF this] show "\<exists>p. Split h ''Bearer '' = [p, tok]" by blast
qed

lemma AuthorizationToken_Return:
  "request_headers authContext = Return headers \<Longrightarrow>
   AuthorizationToken authContext =
     (case lookup headers ''authorization'' of
        (authHeader, authHeaderOK) \<Rightarrow>
          if authHeaderOK \<and> length (Split authHeader ''Bearer '') = 2
          then Return (Split authHeader ''Bearer '' ! 1, None)
          else Return ([], Some malformed))"
  by (auto simp: AuthorizationToken_def index_def Let_def split: prod.splits)

lemma two_elements: "length xs = 2 \<and> xs ! 1 = t \<longleftrightarrow> (\<exists>p. xs = [p, t])"
proof (cases xs)
  case Nil
  then show ?thesis by simp
next
  case (Cons a ys)
  then show ?thesis by (cases ys) auto
qed

lemma lookup_ok:
  "lookup headers k = (h, ok) \<Longrightarrow> ok \<longleftrightarrow> (\<exists>hs. headers = Some hs \<and> hs k = Some h)"
  by (auto simp: lookup_def split: option.splits)

text \<open>
  Claim C4, as amended. On every request on which the header lookup does not panic,
  \<^verbatim>\<open>AuthorizationToken\<close> returns the token \<open>tok\<close> and no error if and only if the
  \<^verbatim>\<open>authorization\<close> header is there and contains \<^verbatim>\<open>"Bearer "\<close> exactly once, \<open>tok\<close> being
  all that follows that occurrence: what stands before it is dropped, and the token may
  be empty. In every other case (no headers map, no such header, \<^verbatim>\<open>"bearer abc"\<close>, no or
  several occurrences of \<^verbatim>\<open>"Bearer "\<close>) it returns the empty string and the
  malformed-header error.
\<close>

theorem AuthorizationToken_bearer_once:
  assumes "request_headers authContext = Return headers"
  shows "(AuthorizationToken authContext = Return (tok, None) \<longleftrightarrow>
            (\<exists>hs h. headers = Some hs \<and> hs ''authorization'' = Some h \<and> bearer_once h tok))
       \<and> ((\<exists>t. AuthorizationToken authContext = Return (t, None))
            \<or> AuthorizationToken authContext = Return ([], Some malformed))"
proof -
  obtain h ok where l: "lookup headers ''authorization'' = (h, ok)"
    by (cases "lookup headers ''authorization''")
  note eq = AuthorizationToken_Return [OF assms, unfolded l, simplified]
  note ok = lookup_ok [OF l]
  have a: "AuthorizationToken authContext = Return (tok, None) \<longleftrightarrow>
        ok \<and> (\<exists>p. Split h ''Bearer '' = [p, tok])"
    unfolding eq using two_elements [of "Split h ''Bearer ''" tok] by auto
  have b: "(\<exists>t. AuthorizationToken authContext = Return (t, None))
            \<or> AuthorizationToken authContext = Return ([], Some malformed)"
    unfolding eq by auto
  have c: "ok \<and> (\<exists>p. Split h ''Bearer '' = [p, tok]) \<longleftrightarrow>
      (\<exists>hs h. headers = Some hs \<and> hs ''authorization'' = Some h \<and> bearer_once h tok)"
  proof
    assume "ok \<and> (\<exists>p. Split h ''Bearer '' = [p, tok])"
    with ok show "\<exists>hs h. headers = Some hs \<and> hs ''authorization'' = Some h \<and> bearer_once h tok"
      by (auto simp: Split_Bearer_once)
  next
    assume "\<exists>hs h. headers = Some hs \<and> hs ''authorization'' = Some h \<and> bearer_once h tok"
    then obtain hs h' where 1: "headers = Some hs" and 2: "hs ''authorization'' = Some h'"
      and 3: "bearer_once h' tok" by blast
    from 1 2 l have "h' = h" and ok by (auto simp: lookup_def)
    with 3 show "ok \<and> (\<exists>p. Split h ''Bearer '' = [p, tok])" by (simp add: Split_Bearer_once)
  qed
  from a b c show ?thesis by simp
qed

theorem AuthorizationToken_bearer_once_witness:
  "request_headers (NewAuthContext Live
       (Some \<lparr>Attributes = Some \<lparr>HttpSide = Some \<lparr>Http = Some
          \<lparr>Headers = Some [''authorization'' \<mapsto> ''Bearer abc'']\<rparr>\<rparr>\<rparr>\<rparr>)
       \<lparr>IdentityConfigs = [], MetadataConfigs = [], AuthorizationConfigs = []\<rparr>)
     = Return (Some [''authorization'' \<mapsto> ''Bearer abc''])
   \<and> AuthorizationToken (NewAuthContext Live
       (Some \<lparr>Attributes = Some \<lparr>HttpSide = Some \<lparr>Http = Some
          \<lparr>Headers = Some [''authorization'' \<mapsto> ''Bearer abc'']\<rparr>\<rparr>\<rparr>\<rparr>)
       \<lparr>IdentityConfigs = [], MetadataConfigs = [], AuthorizationConfigs = []\<rparr>)
     = Return (''abc'', None)
   \<and> bearer_once ''Bearer abc'' ''abc''"
proof -
  let ?c = "NewAuthContext Live
       (Some \<lparr>Attributes = Some \<lparr>HttpSide = Some \<lparr>Http = Some
          \<lparr>Headers = Some [''authorization'' \<mapsto> ''Bearer abc'']\<rparr>\<rparr>\<rparr>\<rparr>)
       \<lparr>IdentityConfigs = [], MetadataConfigs = [], AuthorizationConfigs = []\<rparr>"
  have h: "request_headers ?c = Return (Some [''authorization'' \<mapsto> ''Bearer abc''])"
    by (simp add: NewAuthContext_def request_headers_def)
  have t: "AuthorizationToken ?c = Return (''abc'', None)"
    by code_simp
  have "\<exists>hs h. Some [''authorization'' \<mapsto> ''Bearer abc''] = Some hs
      \<and> hs ''authorization'' = Some h \<and> bearer_once h ''abc''"
    by (rule iffD1 [OF conjunct1 [OF AuthorizationToken_bearer_once [OF h]] t])
  then have b: "bearer_once ''Bearer abc'' ''abc''" by auto
  from h t b show ?thesis by (intro conjI)
qed

text \<open>
  The claim as it was stated fails on the header \<^verbatim>\<open>"Bearer "\<close>, for which the empty token
  is returned with no error, and on \<^verbatim>\<open>"Basic Bearer abc"\<close>, which is not \<^verbatim>\<open>"Bearer "\<close>
  followed by a token and yet gives the token \<^verbatim>\<open>"abc"\<close>.
\<close>

theorem AuthorizationToken_bearer_counterexample:
  "AuthorizationToken (NewAuthContext Live
       (Some \<lparr>Attributes = Some \<lparr>HttpSide = Some \<lparr>Http = Some
          \<lparr>Headers = Some [''authorization'' \<mapsto> ''Bearer '']\<rparr>\<rparr>\<rparr>\<rparr>)
       \<lparr>IdentityConfigs = [], MetadataConfigs = [], AuthorizationConfigs = []\<rparr>)
     = Return ([], None)
   \<and> AuthorizationToken (NewAuthContext Live
       (Some \<lparr>Attributes = Some \<lparr>HttpSide = Some \<lparr>Http = Some
          \<lparr>Headers = Some [''authorization'' \<mapsto> ''Basic Bearer abc'']\<rparr>\<rparr>\<rparr>\<rparr>)
       \<lparr>IdentityConfigs = [], MetadataConfigs = [], AuthorizationConfigs = []\<rparr>)
     = Return (''abc'', None)"
  by code_simp

text \<open>
  Claim C9, as amended. \<^verbatim>\<open>AuthorizationToken\<close> never panics at its index expression:
  it indexes the split slice only when that slice has exactly two elements. On a request
  whose pointers \<^verbatim>\<open>Request\<close>, \<^verbatim>\<open>Attributes\<close>, \<^verbatim>\<open>Request\<close> and \<^verbatim>\<open>Http\<close> are all there it
  returns, with or without a headers map and with or without an \<^verbatim>\<open>authorization\<close>
  header: a token and no error, or the empty string and the malformed-header error. On
  a request where one of these pointers is nil it panics, with a nil pointer
  dereference.
\<close>

theorem AuthorizationToken_index_safe:
  "AuthorizationToken authContext \<noteq> Panic IndexOutOfRange
   \<and> AuthorizationToken authContext =
       (case request_headers authContext of
          Panic p \<Rightarrow> Panic NilPointerDereference
        | Return headers \<Rightarrow>
            (case lookup headers ''authorization'' of
               (authHeader, authHeaderOK) \<Rightarrow>
                 if authHeaderOK \<and> length (Split authHeader ''Bearer '') = 2
                 then Return (Split authHeader ''Bearer '' ! 1, None)
                 else Return ([], Some malformed)))"
proof -
  have p: "request_headers authContext = Panic p \<Longrightarrow> p = NilPointerDereference" for p
    by (auto simp: request_headers_def split: option.splits)
  show ?thesis
    by (auto simp: AuthorizationToken_def index_def Let_def dest: p
        split: prod.splits outcome.splits)
qed

theorem AuthorizationToken_index_safe_witness:
  "AuthorizationToken (NewAuthContext Live
       (Some \<lparr>Attributes = Some \<lparr>HttpSide = Some \<lparr>Http = Some \<lparr>Headers = None\<rparr>\<rparr>\<rparr>\<rparr>)
       \<lparr>IdentityConfigs = [], MetadataConfigs = [], AuthorizationConfigs = []\<rparr>)
     \<noteq> Panic IndexOutOfRange
   \<and> AuthorizationToken (NewAuthContext Live
       (Some \<lparr>Attributes = Some \<lparr>HttpSide = Some \<lparr>Http = Some \<lparr>Headers = None\<rparr>\<rparr>\<rparr>\<rparr>)
       \<lparr>IdentityConfigs = [], MetadataConfigs = [], AuthorizationConfigs = []\<rparr>)
     = Return ([], Some malformed)"
proof -
  let ?c = "NewAuthContext Live
       (Some \<lparr>Attributes = Some \<lparr>HttpSide = Some \<lparr>Http = Some \<lparr>Headers = None\<rparr>\<rparr>\<rparr>\<rparr>)
       \<lparr>IdentityConfigs = [], MetadataConfigs = [], AuthorizationConfigs = []\<rparr>"
  have a: "AuthorizationToken ?c \<noteq> Panic IndexOutOfRange"
    by (rule conjunct1 [OF AuthorizationToken_index_safe])
  have h: "request_headers ?c = Return None"
    by (simp add: NewAuthContext_def request_headers_def)
  have b: "AuthorizationToken ?c = Return ([], Some malformed)"
    by (subst conjunct2 [OF AuthorizationToken_index_safe]) (simp add: h lookup_def)
  from a b show ?thesis by (rule conjI)
qed

text \<open>
  The claim as it was stated, total for every inbound request, fails on the request
  \<^verbatim>\<open>&envoy_auth.CheckRequest{}\<close>, whose \<^verbatim>\<open>Attributes\<close> pointer is nil.
\<close>

theorem AuthorizationToken_total_counterexample:
  "AuthorizationToken (NewAuthContext Live (Some \<lparr>Attributes = None\<rparr>)
       \<lparr>IdentityConfigs = [], MetadataConfigs = [], AuthorizationConfigs = []\<rparr>)
     = Panic NilPointerDereference"
  by (simp add: AuthorizationToken_def request_headers_def NewAuthContext_def)

end
